theory Spec2Isabelle
  imports Complex_Main "HOL-Library.Word"
begin

section \<open>Data model of the VotingSystem contract\<close>

text \<open>
  Solidity's \<open>uint256\<close> is a 256-bit word and \<open>address\<close> a 160-bit word. Comparisons on
  words are unsigned, as in Solidity. Arithmetic in Solidity 0.8 is checked: an
  increment that would wrap reverts with \<open>Panic(0x11)\<close>.
\<close>

type_synonym uint256 = "256 word"
type_synonym address = "160 word"

text \<open>The Groth16 proof parts \<open>uint[2] a\<close>, \<open>uint[2][2] b\<close>, \<open>uint[2] c\<close> and the
  fixed-size array \<open>uint[4] publicSignals\<close>.\<close>

type_synonym proofA = "uint256 \<times> uint256"
type_synonym proofB = "(uint256 \<times> uint256) \<times> (uint256 \<times> uint256)"
type_synonym proofC = "uint256 \<times> uint256"
type_synonym signals = "uint256 \<times> uint256 \<times> uint256 \<times> uint256"

text \<open>\<open>publicSignals[0]\<close>, the signal (candidate id) component.\<close>

definition publicSignals0 :: "signals \<Rightarrow> uint256" where
  "publicSignals0 ps = fst ps"

datatype event =
    VoteCast uint256 uint256 address uint256
  | VotingConfigured uint256 uint256 uint256 uint256
  | RelayerAdded address
  | RelayerRemoved address
  | Paused address
  | Unpaused address
  | OwnershipTransferred address address

text \<open>
  The contract's custom errors, \<open>require\<close> failures (\<open>Error(string)\<close>), arithmetic
  panics, the errors of the inherited OpenZeppelin 5.x contracts (\<open>Ownable\<close>,
  \<open>Pausable\<close>, \<open>ReentrancyGuard\<close>), and a revert bubbled up from the external verifier.
\<close>

datatype error =
    VotingNotActive
  | VotingAlreadyInitialized
  | InvalidCandidate
  | NullifierAlreadyUsed
  | UnauthorizedRelayer
  | InvalidProof
  | InvalidTimeRange
  | RequireFailed string
  | Panic nat
  | OwnableUnauthorizedAccount address
  | OwnableInvalidOwner address
  | EnforcedPause
  | ExpectedPause
  | ReentrancyGuardReentrantCall
  | VerifierReverted

text \<open>
  The storage of the contract, with the storage of the contracts it inherits
  (\<open>owner\<close> of Ownable, \<open>paused\<close> of Pausable, \<open>entered\<close> for the status word of
  ReentrancyGuard) and the log of emitted events.
\<close>

record state =
  owner :: address
  paused :: bool
  entered :: bool
  votingGroupId :: uint256
  votingStartTime :: uint256
  votingEndTime :: uint256
  votingInitialized :: bool
  voteCounts :: "uint256 \<Rightarrow> uint256"
  usedNullifiers :: "uint256 \<Rightarrow> bool"
  totalVotes :: uint256
  candidateCount :: uint256
  authorizedRelayers :: "address \<Rightarrow> bool"
  relayerAddresses :: "address list"
  events :: "event list"

text \<open>
  What a call sees of its environment: \<open>msg.sender\<close>, \<open>block.timestamp\<close>, and the
  behaviour of the external contract at the immutable address \<open>semaphoreVerifier\<close>
  (\<open>None\<close> when the external call reverts). The verifier's interface function is
  \<open>view\<close>, so the call cannot change this contract's storage.
\<close>

record env =
  msg_sender :: address
  block_timestamp :: uint256
  semaphoreVerifier :: "proofA \<Rightarrow> proofB \<Rightarrow> proofC \<Rightarrow> signals \<Rightarrow> uint256 \<Rightarrow> bool option"

text \<open>\<open>SimpleSemaphoreVerifier.verifyProof\<close>: the array-length requirements hold by
  the types; the depth requirement can fail; otherwise the answer is \<open>true\<close>.\<close>

definition simpleVerifyProof ::
  "proofA \<Rightarrow> proofB \<Rightarrow> proofC \<Rightarrow> signals \<Rightarrow> uint256 \<Rightarrow> bool option" where
  "simpleVerifyProof a b c publicSignals merkleTreeDepth =
     (if 0 < merkleTreeDepth \<and> merkleTreeDepth \<le> 32 then Some True else None)"

section \<open>Modifiers\<close>

text \<open>A modifier wraps the function body; \<open>_;\<close> is the call of \<open>body\<close>.\<close>

definition onlyDuringVoting ::
  "env \<Rightarrow> (state \<Rightarrow> error + state) \<Rightarrow> state \<Rightarrow> error + state" where
  "onlyDuringVoting e body s =
     (if block_timestamp e < votingStartTime s \<or> block_timestamp e > votingEndTime s
      then Inl VotingNotActive
      else body s)"

definition onlyAuthorizedRelayer ::
  "env \<Rightarrow> (state \<Rightarrow> error + state) \<Rightarrow> state \<Rightarrow> error + state" where
  "onlyAuthorizedRelayer e body s =
     (if \<not> authorizedRelayers s (msg_sender e) then Inl UnauthorizedRelayer
      else body s)"

text \<open>Inherited from OpenZeppelin Contracts 5.x (imported by the contract).\<close>

definition onlyOwner ::
  "env \<Rightarrow> (state \<Rightarrow> error + state) \<Rightarrow> state \<Rightarrow> error + state" where
  "onlyOwner e body s =
     (if owner s \<noteq> msg_sender e then Inl (OwnableUnauthorizedAccount (msg_sender e))
      else body s)"

definition whenNotPaused :: "(state \<Rightarrow> error + state) \<Rightarrow> state \<Rightarrow> error + state" where
  "whenNotPaused body s = (if paused s then Inl EnforcedPause else body s)"

definition whenPaused :: "(state \<Rightarrow> error + state) \<Rightarrow> state \<Rightarrow> error + state" where
  "whenPaused body s = (if \<not> paused s then Inl ExpectedPause else body s)"

definition nonReentrant :: "(state \<Rightarrow> error + state) \<Rightarrow> state \<Rightarrow> error + state" where
  "nonReentrant body s =
     (if entered s then Inl ReentrancyGuardReentrantCall
      else (case body (s\<lparr>entered := True\<rparr>) of
              Inl err \<Rightarrow> Inl err
            | Inr s' \<Rightarrow> Inr (s'\<lparr>entered := False\<rparr>)))"

section \<open>Constructor\<close>

definition init_state :: "address \<Rightarrow> state" where
  "init_state initialOwner =
     \<lparr> owner = initialOwner, paused = False, entered = False,
       votingGroupId = 0, votingStartTime = 0, votingEndTime = 0,
       votingInitialized = False,
       voteCounts = (\<lambda>_. 0), usedNullifiers = (\<lambda>_. False),
       totalVotes = 0, candidateCount = 0,
       authorizedRelayers = (\<lambda>_. False), relayerAddresses = [],
       events = [OwnershipTransferred 0 initialOwner] \<rparr>"

definition constructor :: "address \<Rightarrow> error + state" where
  "constructor initialOwner =
     (if initialOwner = 0 then Inl (OwnableInvalidOwner 0)
      else Inr (init_state initialOwner))"

section \<open>Admin functions\<close>

definition initializeVoting_body ::
  "env \<Rightarrow> uint256 \<Rightarrow> uint256 \<Rightarrow> uint256 \<Rightarrow> uint256 \<Rightarrow> state \<Rightarrow> error + state" where
  "initializeVoting_body e groupId startTime endTime count s =
     (if votingInitialized s then Inl VotingAlreadyInitialized
      else if startTime \<ge> endTime \<or> startTime < block_timestamp e then Inl InvalidTimeRange
      else if count = 0 then Inl InvalidCandidate
      else Inr (s\<lparr> votingGroupId := groupId,
                   votingStartTime := startTime,
                   votingEndTime := endTime,
                   candidateCount := count,
                   votingInitialized := True,
                   events := events s @ [VotingConfigured groupId startTime endTime count] \<rparr>))"

definition initializeVoting ::
  "env \<Rightarrow> uint256 \<Rightarrow> uint256 \<Rightarrow> uint256 \<Rightarrow> uint256 \<Rightarrow> state \<Rightarrow> error + state" where
  "initializeVoting e groupId startTime endTime count =
     onlyOwner e (initializeVoting_body e groupId startTime endTime count)"

definition addRelayer_body :: "address \<Rightarrow> state \<Rightarrow> error + state" where
  "addRelayer_body relayer s =
     (if relayer = 0 then Inl (RequireFailed ''Invalid relayer address'')
      else if authorizedRelayers s relayer then Inl (RequireFailed ''Relayer already exists'')
      else Inr (s\<lparr> authorizedRelayers := (authorizedRelayers s)(relayer := True),
                   relayerAddresses := relayerAddresses s @ [relayer],
                   events := events s @ [RelayerAdded relayer] \<rparr>))"

definition addRelayer :: "env \<Rightarrow> address \<Rightarrow> state \<Rightarrow> error + state" where
  "addRelayer e relayer = onlyOwner e (addRelayer_body relayer)"

text \<open>
  The removal loop: at the first index holding the relayer, the last element is copied
  into that slot, the array is popped and the loop is left.
\<close>

function removeRelayer_loop :: "address \<Rightarrow> nat \<Rightarrow> address list \<Rightarrow> address list" where
  "removeRelayer_loop relayer i xs =
     (if i < length xs
      then (if xs ! i = relayer
            then butlast (xs[i := xs ! (length xs - 1)])
            else removeRelayer_loop relayer (Suc i) xs)
      else xs)"
  by pat_completeness auto
termination
  by (relation "measure (\<lambda>(relayer, i, xs). length xs - i)") auto

declare removeRelayer_loop.simps [simp del]

definition removeRelayer_body :: "address \<Rightarrow> state \<Rightarrow> error + state" where
  "removeRelayer_body relayer s =
     (if \<not> authorizedRelayers s relayer then Inl (RequireFailed ''Relayer not found'')
      else Inr (s\<lparr> authorizedRelayers := (authorizedRelayers s)(relayer := False),
                   relayerAddresses := removeRelayer_loop relayer 0 (relayerAddresses s),
                   events := events s @ [RelayerRemoved relayer] \<rparr>))"

definition removeRelayer :: "env \<Rightarrow> address \<Rightarrow> state \<Rightarrow> error + state" where
  "removeRelayer e relayer = onlyOwner e (removeRelayer_body relayer)"

section \<open>Core voting function\<close>

text \<open>The checked post-increment \<open>x++\<close> of Solidity 0.8.\<close>

definition checked_inc :: "uint256 \<Rightarrow> error + uint256" where
  "checked_inc x = (if x = - 1 then Inl (Panic 17) else Inr (x + 1))"

definition castVote_body ::
  "env \<Rightarrow> uint256 \<Rightarrow> uint256 \<Rightarrow> proofA \<Rightarrow> proofB \<Rightarrow> proofC \<Rightarrow> signals \<Rightarrow> uint256
     \<Rightarrow> state \<Rightarrow> error + state" where
  "castVote_body e candidateId nullifierHash a b c publicSignals merkleTreeDepth s =
     (if candidateId \<ge> candidateCount s then Inl InvalidCandidate
      else if candidateId \<noteq> publicSignals0 publicSignals then Inl InvalidCandidate
      else if usedNullifiers s nullifierHash then Inl NullifierAlreadyUsed
      else (case semaphoreVerifier e a b c publicSignals merkleTreeDepth of
              None \<Rightarrow> Inl VerifierReverted
            | Some proofValid \<Rightarrow>
                if \<not> proofValid then Inl InvalidProof
                else
                  (let s1 = s\<lparr>usedNullifiers := (usedNullifiers s)(nullifierHash := True)\<rparr>
                   in case checked_inc (voteCounts s1 candidateId) of
                        Inl err \<Rightarrow> Inl err
                      | Inr v \<Rightarrow>
                          (let s2 = s1\<lparr>voteCounts := (voteCounts s1)(candidateId := v)\<rparr>
                           in case checked_inc (totalVotes s2) of
                                Inl err \<Rightarrow> Inl err
                              | Inr t \<Rightarrow>
                                  Inr (s2\<lparr> totalVotes := t,
                                           events := events s2 @
                                             [VoteCast candidateId nullifierHash
                                                (msg_sender e) (block_timestamp e)] \<rparr>)))))"

definition castVote ::
  "env \<Rightarrow> uint256 \<Rightarrow> uint256 \<Rightarrow> proofA \<Rightarrow> proofB \<Rightarrow> proofC \<Rightarrow> signals \<Rightarrow> uint256
     \<Rightarrow> state \<Rightarrow> error + state" where
  "castVote e candidateId nullifierHash a b c publicSignals merkleTreeDepth =
     nonReentrant (whenNotPaused (onlyDuringVoting e (onlyAuthorizedRelayer e
       (castVote_body e candidateId nullifierHash a b c publicSignals merkleTreeDepth))))"

section \<open>View functions\<close>

definition getVoteCount :: "state \<Rightarrow> uint256 \<Rightarrow> uint256" where
  "getVoteCount s candidateId = voteCounts s candidateId"

text \<open>The loop \<open>for i = 0; i < candidateCount; i++\<close> filling \<open>counts[i]\<close>.\<close>

definition getAllVoteCounts :: "state \<Rightarrow> uint256 list" where
  "getAllVoteCounts s = map (\<lambda>i. voteCounts s (word_of_nat i)) [0 ..< unat (candidateCount s)]"

definition isVotingActive :: "env \<Rightarrow> state \<Rightarrow> bool" where
  "isVotingActive e s =
     (votingInitialized s \<and>
      block_timestamp e \<ge> votingStartTime s \<and>
      block_timestamp e \<le> votingEndTime s \<and>
      \<not> paused s)"

definition getVotingInfo :: "state \<Rightarrow> uint256 \<times> uint256 \<times> uint256 \<times> uint256 \<times> uint256" where
  "getVotingInfo s =
     (votingGroupId s, votingStartTime s, votingEndTime s, candidateCount s, totalVotes s)"

definition isNullifierUsed :: "state \<Rightarrow> uint256 \<Rightarrow> bool" where
  "isNullifierUsed s nullifierHash = usedNullifiers s nullifierHash"

definition getRelayers :: "state \<Rightarrow> address list" where
  "getRelayers s = relayerAddresses s"

section \<open>Emergency and ownership functions\<close>

definition pauseVoting :: "env \<Rightarrow> state \<Rightarrow> error + state" where
  "pauseVoting e =
     onlyOwner e (whenNotPaused
       (\<lambda>s. Inr (s\<lparr>paused := True, events := events s @ [Paused (msg_sender e)]\<rparr>)))"

definition unpauseVoting :: "env \<Rightarrow> state \<Rightarrow> error + state" where
  "unpauseVoting e =
     onlyOwner e (whenPaused
       (\<lambda>s. Inr (s\<lparr>paused := False, events := events s @ [Unpaused (msg_sender e)]\<rparr>)))"

definition transferOwnership_internal :: "address \<Rightarrow> state \<Rightarrow> error + state" where
  "transferOwnership_internal newOwner s =
     Inr (s\<lparr>owner := newOwner, events := events s @ [OwnershipTransferred (owner s) newOwner]\<rparr>)"

definition transferOwnership :: "env \<Rightarrow> address \<Rightarrow> state \<Rightarrow> error + state" where
  "transferOwnership e newOwner =
     onlyOwner e (\<lambda>s. if newOwner = 0 then Inl (OwnableInvalidOwner 0)
                      else transferOwnership_internal newOwner s)"

definition renounceOwnership :: "env \<Rightarrow> state \<Rightarrow> error + state" where
  "renounceOwnership e = onlyOwner e (transferOwnership_internal 0)"

section \<open>Transactions\<close>

text \<open>
  The state-changing entry points of the deployed contract. A transaction that reverts
  leaves the storage and the log as they were before it.
\<close>

datatype call =
    InitializeVoting uint256 uint256 uint256 uint256
  | AddRelayer address
  | RemoveRelayer address
  | CastVote uint256 uint256 proofA proofB proofC signals uint256
  | PauseVoting
  | UnpauseVoting
  | TransferOwnership address
  | RenounceOwnership

fun dispatch :: "env \<Rightarrow> call \<Rightarrow> state \<Rightarrow> error + state" where
  "dispatch e (InitializeVoting g st en n) s = initializeVoting e g st en n s"
| "dispatch e (AddRelayer r) s = addRelayer e r s"
| "dispatch e (RemoveRelayer r) s = removeRelayer e r s"
| "dispatch e (CastVote cid nh a b c ps d) s = castVote e cid nh a b c ps d s"
| "dispatch e PauseVoting s = pauseVoting e s"
| "dispatch e UnpauseVoting s = unpauseVoting e s"
| "dispatch e (TransferOwnership a) s = transferOwnership e a s"
| "dispatch e RenounceOwnership s = renounceOwnership e s"

definition transact :: "state \<Rightarrow> env \<times> call \<Rightarrow> state" where
  "transact s tx = (case dispatch (fst tx) (snd tx) s of Inl err \<Rightarrow> s | Inr s' \<Rightarrow> s')"

fun run :: "state \<Rightarrow> (env \<times> call) list \<Rightarrow> state" where
  "run s [] = s"
| "run s (tx # txs) = run (transact s tx) txs"

section \<open>Bookkeeping over a run\<close>

text \<open>A transaction succeeds when its call does not revert.\<close>

definition succeeds :: "state \<Rightarrow> env \<times> call \<Rightarrow> bool" where
  "succeeds s tx = (case dispatch (fst tx) (snd tx) s of Inl err \<Rightarrow> False | Inr s' \<Rightarrow> True)"

fun is_castVote :: "call \<Rightarrow> bool" where
  "is_castVote (CastVote cid nh a b c ps d) = True"
| "is_castVote other = False"

text \<open>Whether a call is a \<open>castVote\<close> carrying the nullifier \<open>n\<close>.\<close>

fun carries :: "uint256 \<Rightarrow> call \<Rightarrow> bool" where
  "carries n (CastVote cid nh a b c ps d) = (nh = n)"
| "carries n other = False"

text \<open>The number of \<open>castVote\<close> calls of a run that succeeded.\<close>

fun accepted_votes :: "state \<Rightarrow> (env \<times> call) list \<Rightarrow> nat" where
  "accepted_votes s [] = 0"
| "accepted_votes s (tx # txs) =
     (if is_castVote (snd tx) \<and> succeeds s tx then 1 else 0) + accepted_votes (transact s tx) txs"

text \<open>The number of successful \<open>castVote\<close> calls of a run that carried \<open>n\<close>.\<close>

fun accepted_with :: "uint256 \<Rightarrow> state \<Rightarrow> (env \<times> call) list \<Rightarrow> nat" where
  "accepted_with n s [] = 0"
| "accepted_with n s (tx # txs) =
     (if carries n (snd tx) \<and> succeeds s tx then 1 else 0) + accepted_with n (transact s tx) txs"

text \<open>The total change of \<open>totalVotes\<close> made by the calls of a run that carried \<open>n\<close>.\<close>

fun votes_added_with :: "uint256 \<Rightarrow> state \<Rightarrow> (env \<times> call) list \<Rightarrow> int" where
  "votes_added_with n s [] = 0"
| "votes_added_with n s (tx # txs) =
     (if carries n (snd tx) then uint (totalVotes (transact s tx)) - uint (totalVotes s) else 0)
       + votes_added_with n (transact s tx) txs"

text \<open>The stored round configuration.\<close>

definition roundConfig :: "state \<Rightarrow> uint256 \<times> uint256 \<times> uint256 \<times> uint256" where
  "roundConfig s = (votingGroupId s, votingStartTime s, votingEndTime s, candidateCount s)"

section \<open>Relayer selection (backend)\<close>

text \<open>
  Reading a JavaScript array at an index outside it gives \<open>undefined\<close> (\<open>None\<close>).
\<close>

definition js_index :: "'a list \<Rightarrow> nat \<Rightarrow> 'a option" where
  "js_index xs i = (if i < length xs then Some (xs ! i) else None)"

text \<open>
  \<open>Math.random()\<close> returns a double-precision number that is at least 0 and less than 1.
  Such a number is \<open>significand / 2 ^ scale\<close> for a significand of at most 53 bits and a
  scale of at most 1074, and every such fraction below 1 is one of these numbers.
\<close>

record random_draw =
  significand :: nat
  scale :: nat

definition is_random_draw :: "random_draw \<Rightarrow> bool" where
  "is_random_draw r =
     (significand r < 2 ^ 53 \<and> significand r < 2 ^ scale r \<and> scale r \<le> 1074)"

text \<open>The number of binary digits of a natural number.\<close>

fun bit_length :: "nat \<Rightarrow> nat" where
  "bit_length n = (if n = 0 then 0 else Suc (bit_length (n div 2)))"

declare bit_length.simps [simp del]

text \<open>\<open>p / 2 ^ s\<close> rounded to the nearest integer, a tie going to the even one.\<close>

definition round_half_even :: "nat \<Rightarrow> nat \<Rightarrow> nat" where
  "round_half_even p s =
     (let q = p div 2 ^ s; rest = p mod 2 ^ s
      in if 2 * rest > 2 ^ s \<or> (2 * rest = 2 ^ s \<and> odd q) then q + 1 else q)"

text \<open>
  The double-precision product \<open>Math.random() * length\<close>, as its numerator over
  \<open>2 ^ scale\<close>. The length of a JavaScript array is below \<open>2 ^ 32\<close> and converts to a
  double exactly. The exact product \<open>significand * length / 2 ^ scale\<close> is rounded to the
  nearest double, ties to even: a product of more than 53 bits loses its low bits. With
  a scale of at most 1074 a product of at most 53 bits is a double as it is, and the
  product is too small to overflow.
\<close>

definition double_times_length :: "random_draw \<Rightarrow> nat \<Rightarrow> nat" where
  "double_times_length r len =
     (let p = significand r * len; s = bit_length p - 53
      in round_half_even p s * 2 ^ s)"

text \<open>\<open>Math.floor(Math.random() * length)\<close>.\<close>

definition floor_random_times :: "random_draw \<Rightarrow> nat \<Rightarrow> nat" where
  "floor_random_times r len = double_times_length r len div 2 ^ scale r"

text \<open>
  \<open>selectRandomRelayer\<close> of the API server; the draw \<open>Math.random()\<close> is the argument
  \<open>random\<close>. A thrown \<open>Error\<close> is \<open>Inl\<close> with its message.
\<close>

definition selectRandomRelayer :: "'w list \<Rightarrow> random_draw \<Rightarrow> string + 'w option" where
  "selectRandomRelayer relayerWallets random =
     (if length relayerWallets = 0 then Inl ''No relayer wallets available''
      else (let randomIndex = floor_random_times random (length relayerWallets)
            in Inr (js_index relayerWallets randomIndex)))"



section \<open>A concrete round\<close>

text \<open>
  The scenario of the test suite: three candidates, a window of one hour, the
  always-accepting test verifier, the mock proof of the tests with depth 20.
\<close>

definition demo_owner :: address where
  "demo_owner = 1"

definition demo_relayer :: address where
  "demo_relayer = 7"

definition demo_env :: "address \<Rightarrow> uint256 \<Rightarrow> env" where
  "demo_env sender t =
     \<lparr> msg_sender = sender, block_timestamp = t, semaphoreVerifier = simpleVerifyProof \<rparr>"

definition demo_vote :: "uint256 \<Rightarrow> uint256 \<Rightarrow> uint256 \<Rightarrow> call" where
  "demo_vote candidateId signal nullifierHash =
     CastVote candidateId nullifierHash (1, 2) ((3, 4), (5, 6)) (7, 8)
       (signal, nullifierHash, 999, 1) 20"

definition demo_setup :: "(env \<times> call) list" where
  "demo_setup =
     [ (demo_env demo_owner 1000, InitializeVoting 1 1100 4700 3),
       (demo_env demo_owner 1001, AddRelayer demo_relayer) ]"

definition demo_trace :: "(env \<times> call) list" where
  "demo_trace = demo_setup @ [ (demo_env demo_relayer 1101, demo_vote 0 0 170) ]"

text \<open>Three relayers are registered and the first one is removed again.\<close>

definition demo_relayers :: "(env \<times> call) list" where
  "demo_relayers =
     [ (demo_env demo_owner 1, AddRelayer 7),
       (demo_env demo_owner 2, AddRelayer 8),
       (demo_env demo_owner 3, AddRelayer 9),
       (demo_env demo_owner 4, RemoveRelayer 7) ]"


definition demo_draw_07 :: random_draw where
  "demo_draw_07 = \<lparr> significand = 6305039478318694, scale = 53 \<rparr>"

section \<open>Invariants of the reachable states\<close>

text \<open>
  Between transactions the reentrancy status is clear; a configured round has a proper
  window and at least one candidate; before configuration every round field and every
  tally is still zero.
\<close>

definition config_inv :: "state \<Rightarrow> bool" where
  "config_inv s =
     (\<not> entered s \<and>
      (if votingInitialized s
       then votingStartTime s < votingEndTime s \<and> candidateCount s \<noteq> 0
       else votingStartTime s = 0 \<and> votingEndTime s = 0 \<and> candidateCount s = 0 \<and>
            votingGroupId s = 0 \<and> totalVotes s = 0 \<and> voteCounts s = (\<lambda>_. 0)))"

section \<open>Properties\<close>

lemma unat_inc: "x \<noteq> - 1 \<Longrightarrow> unat (x + 1) = unat x + 1" for x :: uint256
  using unatSuc [of x] by (simp add: add.commute eq_neg_iff_add_eq_0)

lemma castVote_unfold:
  "castVote e cid nh a b c ps d s =
     (if entered s then Inl ReentrancyGuardReentrantCall
      else if paused s then Inl EnforcedPause
      else if block_timestamp e < votingStartTime s \<or> block_timestamp e > votingEndTime s
        then Inl VotingNotActive
      else if \<not> authorizedRelayers s (msg_sender e) then Inl UnauthorizedRelayer
      else if cid \<ge> candidateCount s then Inl InvalidCandidate
      else if cid \<noteq> publicSignals0 ps then Inl InvalidCandidate
      else if usedNullifiers s nh then Inl NullifierAlreadyUsed
      else if semaphoreVerifier e a b c ps d = None then Inl VerifierReverted
      else if semaphoreVerifier e a b c ps d = Some False then Inl InvalidProof
      else if voteCounts s cid = - 1 then Inl (Panic 17)
      else if totalVotes s = - 1 then Inl (Panic 17)
      else Inr (s\<lparr> usedNullifiers := (usedNullifiers s)(nh := True),
                   voteCounts := (voteCounts s)(cid := voteCounts s cid + 1),
                   totalVotes := totalVotes s + 1,
                   events := events s @ [VoteCast cid nh (msg_sender e) (block_timestamp e)] \<rparr>))"
  by (cases "semaphoreVerifier e a b c ps d")
     (auto simp: castVote_def nonReentrant_def whenNotPaused_def onlyDuringVoting_def
        onlyAuthorizedRelayer_def castVote_body_def checked_inc_def Let_def)

lemmas admin_defs = initializeVoting_def initializeVoting_body_def addRelayer_def
  addRelayer_body_def removeRelayer_def removeRelayer_body_def pauseVoting_def
  unpauseVoting_def transferOwnership_def transferOwnership_internal_def
  renounceOwnership_def onlyOwner_def whenNotPaused_def whenPaused_def

lemmas demo_defs = demo_owner_def demo_relayer_def demo_env_def demo_vote_def
  demo_setup_def demo_trace_def init_state_def simpleVerifyProof_def publicSignals0_def

lemma config_inv_init: "config_inv (init_state initialOwner)"
  by (simp add: config_inv_def init_state_def)

lemma config_inv_transact: "config_inv s \<Longrightarrow> config_inv (transact s tx)"
proof (cases tx)
  case (Pair e cl)
  assume inv: "config_inv s"
  show ?thesis
  proof (cases cl)
    case (CastVote cid nh a b c ps d)
    with Pair inv show ?thesis
      by (auto simp: transact_def castVote_unfold config_inv_def split: if_splits)
  qed (use Pair inv in \<open>auto simp: transact_def admin_defs config_inv_def split: if_splits\<close>)
qed

lemma config_inv_run: "config_inv s \<Longrightarrow> config_inv (run s txs)"
  by (induction txs arbitrary: s) (simp_all add: config_inv_transact)

lemma config_inv_reachable: "config_inv (run (init_state initialOwner) txs)"
  by (simp add: config_inv_run config_inv_init)

text \<open>
  C9. In every reachable state with a configured round the window is inclusive at both
  ends: at \<open>block.timestamp = votingStartTime\<close> and at \<open>block.timestamp = votingEndTime\<close>
  \<open>castVote\<close> is not rejected with \<open>VotingNotActive\<close>, and \<open>isVotingActive\<close> is true there
  when the contract is not paused; \<open>castVote\<close> fails with \<open>VotingNotActive\<close> exactly when it
  is not paused and the time is strictly before the start or strictly after the end.
\<close>

theorem voting_window_inclusive:
  assumes "s = run (init_state initialOwner) txs" and "votingInitialized s"
  shows "(block_timestamp e = votingStartTime s \<or> block_timestamp e = votingEndTime s
            \<longrightarrow> castVote e cid nh a b c ps d s \<noteq> Inl VotingNotActive)
       \<and> (\<not> paused s \<and> (block_timestamp e = votingStartTime s \<or> block_timestamp e = votingEndTime s)
            \<longrightarrow> isVotingActive e s)
       \<and> (castVote e cid nh a b c ps d s = Inl VotingNotActive
            \<longleftrightarrow> \<not> paused s \<and> (block_timestamp e < votingStartTime s \<or> votingEndTime s < block_timestamp e))"
proof -
  have inv: "config_inv s" using assms(1) by (simp add: config_inv_reachable)
  with assms(2) have lt: "votingStartTime s < votingEndTime s" and ne: "\<not> entered s"
    by (simp_all add: config_inv_def)
  show ?thesis using lt ne assms(2)
    by (auto simp: castVote_unfold isVotingActive_def)
qed


lemma demo_setup_state:
  "run (init_state demo_owner) demo_setup =
     \<lparr> owner = 1, paused = False, entered = False,
       votingGroupId = 1, votingStartTime = 1100, votingEndTime = 4700,
       votingInitialized = True,
       voteCounts = (\<lambda>_. 0), usedNullifiers = (\<lambda>_. False),
       totalVotes = 0, candidateCount = 3,
       authorizedRelayers = (\<lambda>_. False)(7 := True), relayerAddresses = [7],
       events = [OwnershipTransferred 0 1, VotingConfigured 1 1100 4700 3, RelayerAdded 7] \<rparr>"
  by (simp add: demo_defs transact_def admin_defs)

text \<open>C9 at the configured round of the test scenario, at the start instant 1100.\<close>

theorem voting_window_inclusive_witness:
  "votingInitialized (run (init_state demo_owner) demo_setup)
   \<and> castVote (demo_env demo_relayer 1100) 0 170 (1, 2) ((3, 4), (5, 6)) (7, 8) (0, 170, 999, 1) 20
        (run (init_state demo_owner) demo_setup) \<noteq> Inl VotingNotActive
   \<and> isVotingActive (demo_env demo_relayer 1100) (run (init_state demo_owner) demo_setup)"
  using voting_window_inclusive [where s = "run (init_state demo_owner) demo_setup"
      and initialOwner = demo_owner and txs = demo_setup and e = "demo_env demo_relayer 1100"
      and cid = 0 and nh = 170 and a = "(1, 2)" and b = "((3, 4), (5, 6))" and c = "(7, 8)"
      and ps = "(0, 170, 999, 1)" and d = 20]
  by (simp add: demo_setup_state demo_env_def)

text \<open>
  C2. A \<open>castVote\<close> transaction that reverts leaves the whole state (storage and log) as it
  was. One that succeeds changes exactly four things together: the nullifier, unused
  before, is marked used; the chosen candidate's count and \<open>totalVotes\<close> each grow by one
  without wrapping; one \<open>VoteCast\<close> record is appended. The relayer registry and the round
  configuration are untouched. There is no third outcome.
\<close>

theorem castVote_all_or_nothing:
  "(case castVote e cid nh a b c ps d s of
      Inl err \<Rightarrow> transact s (e, CastVote cid nh a b c ps d) = s
    | Inr s' \<Rightarrow>
        transact s (e, CastVote cid nh a b c ps d) = s'
        \<and> s' = s\<lparr> usedNullifiers := (usedNullifiers s)(nh := True),
                   voteCounts := (voteCounts s)(cid := voteCounts s cid + 1),
                   totalVotes := totalVotes s + 1,
                   events := events s @ [VoteCast cid nh (msg_sender e) (block_timestamp e)] \<rparr>
        \<and> \<not> usedNullifiers s nh
        \<and> unat (voteCounts s' cid) = unat (voteCounts s cid) + 1
        \<and> unat (totalVotes s') = unat (totalVotes s) + 1
        \<and> authorizedRelayers s' = authorizedRelayers s
        \<and> relayerAddresses s' = relayerAddresses s
        \<and> roundConfig s' = roundConfig s)"
proof (cases "castVote e cid nh a b c ps d s")
  case (Inl err)
  then show ?thesis by (simp add: transact_def)
next
  case (Inr s')
  then show ?thesis
    by (auto simp: transact_def castVote_unfold roundConfig_def unat_inc split: if_splits)
qed

text \<open>C2 at an accepted vote and at a rejected vote of the test scenario.\<close>

theorem castVote_all_or_nothing_witness:
  "transact (run (init_state demo_owner) demo_setup) (demo_env demo_relayer 1101, demo_vote 0 0 170)
     = (run (init_state demo_owner) demo_setup)
         \<lparr> usedNullifiers := (\<lambda>_. False)(170 := True),
           voteCounts := (\<lambda>_. 0)(0 := 1),
           totalVotes := 1,
           events := [OwnershipTransferred 0 1, VotingConfigured 1 1100 4700 3, RelayerAdded 7,
                      VoteCast 0 170 7 1101] \<rparr>
   \<and> transact (run (init_state demo_owner) demo_setup) (demo_env demo_relayer 1101, demo_vote 1 0 170)
     = run (init_state demo_owner) demo_setup"
proof -
  let ?s = "run (init_state demo_owner) demo_setup"
  let ?e = "demo_env demo_relayer 1101"
  have accepted: "castVote ?e 0 170 (1, 2) ((3, 4), (5, 6)) (7, 8) (0, 170, 999, 1) 20 ?s
      = Inr (?s\<lparr> usedNullifiers := (\<lambda>_. False)(170 := True),
                   voteCounts := (\<lambda>_. 0)(0 := 1),
                   totalVotes := 1,
                   events := [OwnershipTransferred 0 1, VotingConfigured 1 1100 4700 3,
                              RelayerAdded 7, VoteCast 0 170 7 1101] \<rparr>)"
    by (simp add: demo_setup_state demo_env_def demo_relayer_def castVote_unfold
        simpleVerifyProof_def publicSignals0_def)
  have rejected: "castVote ?e 1 170 (1, 2) ((3, 4), (5, 6)) (7, 8) (0, 170, 999, 1) 20 ?s
      = Inl InvalidCandidate"
    by (simp add: demo_setup_state demo_env_def demo_relayer_def castVote_unfold
        publicSignals0_def)
  show ?thesis
    using castVote_all_or_nothing [where e = ?e and cid = 0 and nh = 170
      and a = "(1, 2)" and b = "((3, 4), (5, 6))" and c = "(7, 8)" and ps = "(0, 170, 999, 1)"
      and d = 20 and s = ?s]
    castVote_all_or_nothing [where e = ?e and cid = 1 and nh = 170
      and a = "(1, 2)" and b = "((3, 4), (5, 6))" and c = "(7, 8)" and ps = "(0, 170, 999, 1)"
      and d = 20 and s = ?s]
    by (simp add: accepted rejected demo_vote_def)
qed

text \<open>
  C4. When \<open>candidateId\<close> differs from \<open>publicSignals[0]\<close>, \<open>castVote\<close> fails, with the error of
  a modifier or with \<open>InvalidCandidate\<close>; its result is the same whatever the verifier would
  answer, so the verifier plays no part; and the transaction changes nothing.
\<close>

theorem castVote_signal_mismatch:
  assumes "cid \<noteq> publicSignals0 ps"
  shows "castVote e cid nh a b c ps d s \<in>
           Inl ` {ReentrancyGuardReentrantCall, EnforcedPause, VotingNotActive,
                  UnauthorizedRelayer, InvalidCandidate}
       \<and> castVote (e\<lparr>semaphoreVerifier := V\<rparr>) cid nh a b c ps d s = castVote e cid nh a b c ps d s
       \<and> (\<not> entered s \<and> \<not> paused s \<and> votingStartTime s \<le> block_timestamp e
            \<and> block_timestamp e \<le> votingEndTime s \<and> authorizedRelayers s (msg_sender e)
          \<longrightarrow> castVote e cid nh a b c ps d s = Inl InvalidCandidate)
       \<and> transact s (e, CastVote cid nh a b c ps d) = s"
  using assms by (auto simp: castVote_unfold transact_def)

text \<open>C4 at \<open>candidateId = 1\<close> with \<open>publicSignals[0] = 0\<close>, inside the window, by a relayer.\<close>

theorem castVote_signal_mismatch_witness:
  "(1 :: uint256) \<noteq> publicSignals0 (0, 170, 999, 1)
   \<and> castVote (demo_env demo_relayer 1101) 1 170 (1, 2) ((3, 4), (5, 6)) (7, 8) (0, 170, 999, 1) 20
        (run (init_state demo_owner) demo_setup) = Inl InvalidCandidate"
  using castVote_signal_mismatch [where cid = 1 and ps = "(0, 170, 999, 1)"
      and e = "demo_env demo_relayer 1101" and nh = 170 and a = "(1, 2)" and b = "((3, 4), (5, 6))"
      and c = "(7, 8)" and d = 20 and s = "run (init_state demo_owner) demo_setup"
      and V = simpleVerifyProof]
  by (simp add: demo_setup_state demo_env_def demo_relayer_def publicSignals0_def)

text \<open>
  C5 as stated fails: one second before the start, one second after the end, and on a
  contract whose round was never configured, \<open>castVote\<close> reverts with one and the same
  error \<open>VotingNotActive\<close>.
\<close>

theorem castVote_gate_errors_counterexample:
  "castVote (demo_env demo_relayer 1099) 0 170 (1, 2) ((3, 4), (5, 6)) (7, 8) (0, 170, 999, 1) 20
       (run (init_state demo_owner) demo_setup) = Inl VotingNotActive
   \<and> castVote (demo_env demo_relayer 4701) 0 170 (1, 2) ((3, 4), (5, 6)) (7, 8) (0, 170, 999, 1) 20
       (run (init_state demo_owner) demo_setup) = Inl VotingNotActive
   \<and> castVote (demo_env demo_relayer 1099) 0 170 (1, 2) ((3, 4), (5, 6)) (7, 8) (0, 170, 999, 1) 20
       (init_state demo_owner) = Inl VotingNotActive"
proof -
  have "castVote (demo_env demo_relayer 1099) 0 170 (1, 2) ((3, 4), (5, 6)) (7, 8)
          (0, 170, 999, 1) 20 (init_state demo_owner) = Inl VotingNotActive"
    by (simp add: demo_env_def castVote_unfold init_state_def)
  then show ?thesis
    by (simp add: demo_setup_state demo_env_def demo_relayer_def castVote_unfold)
qed

text \<open>
  C5, amended. In every reachable state \<open>castVote\<close> reverts with \<open>EnforcedPause\<close> exactly when
  the contract is paused, and with the single error \<open>VotingNotActive\<close> exactly when it is not
  paused and the time is before the start or after the end. A round that is not configured
  has start and end 0, is rejected with that same \<open>VotingNotActive\<close> at every time other
  than 0, and is never accepted.
\<close>

theorem castVote_gate_errors:
  assumes "s = run (init_state initialOwner) txs"
  shows "(castVote e cid nh a b c ps d s = Inl EnforcedPause \<longleftrightarrow> paused s)
       \<and> (castVote e cid nh a b c ps d s = Inl VotingNotActive
            \<longleftrightarrow> \<not> paused s \<and> (block_timestamp e < votingStartTime s \<or> votingEndTime s < block_timestamp e))
       \<and> (\<not> votingInitialized s \<and> \<not> paused s \<and> block_timestamp e \<noteq> 0
            \<longrightarrow> castVote e cid nh a b c ps d s = Inl VotingNotActive)
       \<and> (\<not> votingInitialized s \<longrightarrow> (\<exists>err. castVote e cid nh a b c ps d s = Inl err))"
proof -
  have inv: "config_inv s" using assms by (simp add: config_inv_reachable)
  then have ne: "\<not> entered s" by (simp add: config_inv_def)
  have un: "votingStartTime s = 0 \<and> votingEndTime s = 0 \<and> candidateCount s = 0"
    if "\<not> votingInitialized s"
    using inv that by (simp add: config_inv_def)
  have pos: "0 < block_timestamp e" if "block_timestamp e \<noteq> 0"
    using that by (simp add: word_greater_zero_iff)
  show ?thesis
  proof (cases "votingInitialized s")
    case True
    then show ?thesis using ne by (auto simp: castVote_unfold)
  next
    case False
    with un have "votingStartTime s = 0" "votingEndTime s = 0" "candidateCount s = 0"
      by simp_all
    then show ?thesis using ne False pos by (auto simp: castVote_unfold)
  qed
qed

text \<open>C5, amended, at a paused configured round and at an unconfigured contract.\<close>

theorem castVote_gate_errors_witness:
  "castVote ((demo_env demo_relayer 1101)) 0 170 (1, 2) ((3, 4), (5, 6)) (7, 8) (0, 170, 999, 1) 20
       (run (init_state demo_owner) (demo_setup @ [(demo_env demo_owner 1002, PauseVoting)]))
     = Inl EnforcedPause
   \<and> castVote (demo_env demo_relayer 5) 0 170 (1, 2) ((3, 4), (5, 6)) (7, 8) (0, 170, 999, 1) 20
       (run (init_state demo_owner) []) = Inl VotingNotActive"
  using castVote_gate_errors [where
      s = "run (init_state demo_owner) (demo_setup @ [(demo_env demo_owner 1002, PauseVoting)])"
      and initialOwner = demo_owner
      and txs = "demo_setup @ [(demo_env demo_owner 1002, PauseVoting)]"
      and e = "demo_env demo_relayer 1101" and cid = 0 and nh = 170 and a = "(1, 2)"
      and b = "((3, 4), (5, 6))" and c = "(7, 8)" and ps = "(0, 170, 999, 1)" and d = 20]
    castVote_gate_errors [where s = "run (init_state demo_owner) []" and initialOwner = demo_owner
      and txs = "[]" and e = "demo_env demo_relayer 5" and cid = 0 and nh = 170 and a = "(1, 2)"
      and b = "((3, 4), (5, 6))" and c = "(7, 8)" and ps = "(0, 170, 999, 1)" and d = 20]
  by (simp add: demo_defs transact_def admin_defs)

lemma config_frozen_transact:
  "votingInitialized s \<Longrightarrow>
     votingInitialized (transact s tx) \<and> roundConfig (transact s tx) = roundConfig s"
proof (cases tx)
  case (Pair e cl)
  assume ini: "votingInitialized s"
  show ?thesis
  proof (cases cl)
    case (CastVote cid nh a b c ps d)
    with Pair ini show ?thesis
      by (auto simp: transact_def castVote_unfold roundConfig_def split: if_splits)
  qed (use Pair ini in \<open>auto simp: transact_def admin_defs roundConfig_def split: if_splits\<close>)
qed

lemma config_frozen_run:
  "votingInitialized s \<Longrightarrow>
     votingInitialized (run s txs) \<and> roundConfig (run s txs) = roundConfig s"
proof (induction txs arbitrary: s)
  case Nil
  then show ?case by simp
next
  case (Cons tx txs)
  from Cons.prems have "votingInitialized (transact s tx)" "roundConfig (transact s tx) = roundConfig s"
    by (simp_all add: config_frozen_transact)
  with Cons.IH [of "transact s tx"] show ?case by simp
qed

lemma initializeVoting_success:
  "initializeVoting e g st en n s = Inr s' \<Longrightarrow>
     votingInitialized s' \<and> roundConfig s' = (g, st, en, n)"
  by (auto simp: admin_defs roundConfig_def split: if_splits)

text \<open>
  C6 as stated fails: after the round has been configured, an \<open>initializeVoting\<close> call by
  an account other than the owner reverts with \<open>OwnableUnauthorizedAccount\<close>, not with
  \<open>VotingAlreadyInitialized\<close>.
\<close>

theorem initializeVoting_once_counterexample:
  "votingInitialized (run (init_state demo_owner) demo_setup)
   \<and> initializeVoting (demo_env demo_relayer 1050) 1 2100 5700 3
        (run (init_state demo_owner) demo_setup) = Inl (OwnableUnauthorizedAccount demo_relayer)"
  by (simp add: demo_setup_state demo_env_def demo_relayer_def admin_defs)

text \<open>
  C6, amended. Once an \<open>initializeVoting\<close> call has succeeded, then after any further
  transactions the stored configuration is still the one that call set, and every
  \<open>initializeVoting\<close> call fails, with \<open>VotingAlreadyInitialized\<close> when the caller is the owner
  and with \<open>OwnableUnauthorizedAccount\<close> otherwise, leaving the state as it was.
\<close>

theorem initializeVoting_once:
  assumes "initializeVoting e0 g st en n s0 = Inr s1" and "s = run s1 txs"
  shows "roundConfig s = (g, st, en, n)
       \<and> initializeVoting e g' st' en' n' s =
           Inl (if owner s = msg_sender e then VotingAlreadyInitialized
                else OwnableUnauthorizedAccount (msg_sender e))
       \<and> transact s (e, InitializeVoting g' st' en' n') = s"
proof -
  from assms(1) have "votingInitialized s1" "roundConfig s1 = (g, st, en, n)"
    by (simp_all add: initializeVoting_success)
  with assms(2) have ini: "votingInitialized s" and cfg: "roundConfig s = (g, st, en, n)"
    by (simp_all add: config_frozen_run)
  from ini have res: "initializeVoting e g' st' en' n' s =
           Inl (if owner s = msg_sender e then VotingAlreadyInitialized
                else OwnableUnauthorizedAccount (msg_sender e))"
    by (simp add: admin_defs)
  then have "transact s (e, InitializeVoting g' st' en' n') = s"
    by (simp add: transact_def)
  with cfg res show ?thesis by simp
qed

text \<open>
  C6, amended, at the test scenario: the owner's second call, with other times.
\<close>

theorem initializeVoting_once_witness:
  "roundConfig (run (init_state demo_owner) demo_setup) = (1, 1100, 4700, 3)
   \<and> initializeVoting (demo_env demo_owner 1050) 1 2100 5700 3
        (run (init_state demo_owner) demo_setup) = Inl VotingAlreadyInitialized"
proof -
  let ?s1 = "transact (init_state demo_owner) (demo_env demo_owner 1000, InitializeVoting 1 1100 4700 3)"
  have first: "initializeVoting (demo_env demo_owner 1000) 1 1100 4700 3 (init_state demo_owner) = Inr ?s1"
    by (simp add: transact_def demo_defs admin_defs)
  have rest: "run (init_state demo_owner) demo_setup = run ?s1 [(demo_env demo_owner 1001, AddRelayer demo_relayer)]"
    by (simp add: demo_setup_def)
  have own: "owner (run (init_state demo_owner) demo_setup) = msg_sender (demo_env demo_owner 1050)"
    unfolding demo_setup_state by (simp add: demo_env_def demo_owner_def)
  show ?thesis
    using initializeVoting_once [OF first rest, where e = "demo_env demo_owner 1050"
        and g' = 1 and st' = 2100 and en' = 5700 and n' = 3] own
    by simp
qed

text \<open>
  C7 as stated fails: a first call by the owner with \<open>_startTime\<close> equal to the current
  \<open>block.timestamp\<close>, which is not in the future, succeeds.
\<close>

theorem initializeVoting_first_counterexample:
  "succeeds (init_state demo_owner) (demo_env demo_owner 1100, InitializeVoting 1 1100 4700 3)
   \<and> \<not> block_timestamp (demo_env demo_owner 1100) < 1100"
  by (simp add: succeeds_def demo_env_def demo_owner_def init_state_def admin_defs)

text \<open>
  C7, amended. A first \<open>initializeVoting\<close> call by the owner succeeds exactly when
  \<open>_startTime < _endTime\<close>, \<open>_startTime\<close> is not before \<open>block.timestamp\<close> (equal is accepted)
  and \<open>_candidateCount\<close> is not 0. A violated time condition gives \<open>InvalidTimeRange\<close>;
  valid times with \<open>_candidateCount = 0\<close> give \<open>InvalidCandidate\<close>; a rejected call stores
  nothing; an accepted one stores the four arguments.
\<close>

theorem initializeVoting_first:
  assumes "\<not> votingInitialized s" and "owner s = msg_sender e"
  shows "((\<exists>s'. initializeVoting e g st en n s = Inr s')
            \<longleftrightarrow> st < en \<and> block_timestamp e \<le> st \<and> n \<noteq> 0)
       \<and> (en \<le> st \<or> st < block_timestamp e \<longrightarrow> initializeVoting e g st en n s = Inl InvalidTimeRange)
       \<and> (st < en \<and> block_timestamp e \<le> st \<and> n = 0
            \<longrightarrow> initializeVoting e g st en n s = Inl InvalidCandidate)
       \<and> (\<forall>err. initializeVoting e g st en n s = Inl err
            \<longrightarrow> transact s (e, InitializeVoting g st en n) = s)
       \<and> (\<forall>s'. initializeVoting e g st en n s = Inr s'
            \<longrightarrow> transact s (e, InitializeVoting g st en n) = s'
                \<and> votingInitialized s' \<and> roundConfig s' = (g, st, en, n))"
  using assms by (auto simp: admin_defs transact_def roundConfig_def)

text \<open>
  C7, amended, at a start time in the past and at zero candidates.
\<close>

theorem initializeVoting_first_witness:
  "initializeVoting (demo_env demo_owner 1000) 1 900 4600 3 (init_state demo_owner) = Inl InvalidTimeRange
   \<and> initializeVoting (demo_env demo_owner 1000) 1 1100 4700 0 (init_state demo_owner) = Inl InvalidCandidate
   \<and> roundConfig (transact (init_state demo_owner) (demo_env demo_owner 1000, InitializeVoting 1 900 4600 3))
       = (0, 0, 0, 0)"
proof -
  have a: "\<not> votingInitialized (init_state demo_owner)"
    by (simp add: init_state_def)
  have b: "owner (init_state demo_owner) = msg_sender (demo_env demo_owner 1000)"
    by (simp add: init_state_def demo_env_def)
  have c: "roundConfig (init_state demo_owner) = (0, 0, 0, 0)"
    by (simp add: init_state_def roundConfig_def)
  show ?thesis
    using initializeVoting_first [OF a b, where g = 1 and st = 900 and en = 4600 and n = 3]
      initializeVoting_first [OF a b, where g = 1 and st = 1100 and en = 4700 and n = 0] c
    by (simp add: demo_env_def)
qed

lemma sum_list_bump:
  "distinct ks \<Longrightarrow> k \<in> set ks \<Longrightarrow> (\<forall>j \<in> set ks. j \<noteq> k \<longrightarrow> g' j = g j) \<Longrightarrow>
     g' k = g k + 1 \<Longrightarrow> sum_list (map g' ks) = sum_list (map g ks) + (1 :: nat)"
proof (induction ks)
  case Nil
  then show ?case by simp
next
  case (Cons x ks)
  show ?case
  proof (cases "x = k")
    case True
    with Cons.prems have "k \<notin> set ks" by simp
    with Cons.prems have "map g' ks = map g ks" by auto
    then have "sum_list (map g' ks) = sum_list (map g ks)" by (rule arg_cong)
    with True Cons.prems(4) show ?thesis by simp
  next
    case False
    with Cons show ?thesis by simp
  qed
qed

lemma word_of_nat_neq:
  "j < unat (cc :: uint256) \<Longrightarrow> j \<noteq> unat c \<Longrightarrow> word_of_nat j \<noteq> (c :: uint256)"
proof
  assume lt: "j < unat cc" and ne: "j \<noteq> unat c" and eq: "word_of_nat j = c"
  have "unat cc < 2 ^ LENGTH(256)" by (rule unsigned_less)
  with lt have "j < 2 ^ LENGTH(256)" by simp
  with eq have "unat c = j" by (rule of_nat_inverse)
  with ne show False by simp
qed

lemma tally_bump:
  assumes "cid < candidateCount s" and "voteCounts s cid \<noteq> - 1"
  shows "sum_list (map unat (getAllVoteCounts
           (s\<lparr> usedNullifiers := u,
               voteCounts := (voteCounts s)(cid := voteCounts s cid + 1),
               totalVotes := t, events := ev \<rparr>)))
         = sum_list (map unat (getAllVoteCounts s)) + 1"
proof -
  let ?n = "unat (candidateCount s)"
  let ?g = "\<lambda>i. unat (voteCounts s (word_of_nat i))"
  let ?g' = "\<lambda>i. unat (((voteCounts s)(cid := voteCounts s cid + 1)) (word_of_nat i))"
  have k: "unat cid \<in> set [0 ..< ?n]"
    using assms(1) by (simp add: word_less_nat_alt)
  have same: "\<forall>j \<in> set [0 ..< ?n]. j \<noteq> unat cid \<longrightarrow> ?g' j = ?g j"
    by (simp add: word_of_nat_neq)
  have bump: "?g' (unat cid) = ?g (unat cid) + 1"
    using assms(2) by (simp add: unat_inc)
  have "sum_list (map ?g' [0 ..< ?n]) = sum_list (map ?g [0 ..< ?n]) + 1"
    using sum_list_bump [OF distinct_upt k same bump] .
  then show ?thesis by (simp add: getAllVoteCounts_def comp_def)
qed

lemma tally_transact:
  assumes "config_inv s" and "sum_list (map unat (getAllVoteCounts s)) = unat (totalVotes s)"
  shows "sum_list (map unat (getAllVoteCounts (transact s tx))) = unat (totalVotes (transact s tx))"
proof (cases tx)
  case (Pair e cl)
  show ?thesis
  proof (cases cl)
    case (CastVote cid nh a b c ps d)
    show ?thesis
    proof (cases "castVote e cid nh a b c ps d s")
      case (Inl err)
      with Pair CastVote assms(2) show ?thesis by (simp add: transact_def)
    next
      case (Inr s')
      then have ok: "cid < candidateCount s" "voteCounts s cid \<noteq> - 1" "totalVotes s \<noteq> - 1"
        and s': "s' = s\<lparr> usedNullifiers := (usedNullifiers s)(nh := True),
                   voteCounts := (voteCounts s)(cid := voteCounts s cid + 1),
                   totalVotes := totalVotes s + 1,
                   events := events s @ [VoteCast cid nh (msg_sender e) (block_timestamp e)] \<rparr>"
        by (auto simp: castVote_unfold split: if_splits)
      have "sum_list (map unat (getAllVoteCounts s')) = sum_list (map unat (getAllVoteCounts s)) + 1"
        unfolding s' using ok(1,2) by (rule tally_bump)
      moreover have "unat (totalVotes s') = unat (totalVotes s) + 1"
        using ok(3) by (simp add: s' unat_inc)
      ultimately show ?thesis
        using Pair CastVote Inr assms(2) by (simp add: transact_def)
    qed
  next
    case (InitializeVoting g st en n)
    show ?thesis
    proof (cases "initializeVoting e g st en n s")
      case (Inl err)
      with Pair InitializeVoting assms(2) show ?thesis by (simp add: transact_def)
    next
      case (Inr s')
      then have "\<not> votingInitialized s" and s': "voteCounts s' = voteCounts s" "totalVotes s' = totalVotes s"
        by (auto simp: admin_defs split: if_splits)
      with assms(1) have "voteCounts s' = (\<lambda>_. 0)" "totalVotes s' = 0"
        by (simp_all add: config_inv_def)
      then have "sum_list (map unat (getAllVoteCounts s')) = unat (totalVotes s')"
        by (simp add: getAllVoteCounts_def comp_def)
      with Pair InitializeVoting Inr show ?thesis by (simp add: transact_def)
    qed
  qed (use Pair assms(2) in \<open>auto simp: transact_def admin_defs getAllVoteCounts_def split: if_splits\<close>)
qed

lemma tally_run:
  "config_inv s \<Longrightarrow> sum_list (map unat (getAllVoteCounts s)) = unat (totalVotes s) \<Longrightarrow>
     sum_list (map unat (getAllVoteCounts (run s txs))) = unat (totalVotes (run s txs))"
  by (induction txs arbitrary: s) (simp_all add: tally_transact config_inv_transact)

lemma totalVotes_transact:
  "unat (totalVotes (transact s tx)) =
     unat (totalVotes s) + (if is_castVote (snd tx) \<and> succeeds s tx then 1 else 0)"
proof (cases tx)
  case (Pair e cl)
  show ?thesis
  proof (cases cl)
    case (CastVote cid nh a b c ps d)
    with Pair show ?thesis
      by (auto simp: transact_def succeeds_def castVote_unfold unat_inc split: if_splits)
  qed (use Pair in \<open>auto simp: transact_def admin_defs split: if_splits\<close>)
qed

lemma totalVotes_run:
  "unat (totalVotes (run s txs)) = unat (totalVotes s) + accepted_votes s txs"
  by (induction txs arbitrary: s) (simp_all add: totalVotes_transact)

lemma word_le_inc: "x \<noteq> - 1 \<Longrightarrow> x \<le> x + 1" for x :: uint256
  by (simp add: word_le_nat_alt unat_inc)

lemma counts_mono_transact:
  "voteCounts s i \<le> voteCounts (transact s tx) i \<and> totalVotes s \<le> totalVotes (transact s tx)"
proof (cases tx)
  case (Pair e cl)
  show ?thesis
  proof (cases cl)
    case (CastVote cid nh a b c ps d)
    with Pair show ?thesis
      by (auto simp: transact_def castVote_unfold word_le_inc split: if_splits)
  qed (use Pair in \<open>auto simp: transact_def admin_defs split: if_splits\<close>)
qed

lemma counts_mono_run:
  "voteCounts s i \<le> voteCounts (run s txs) i \<and> totalVotes s \<le> totalVotes (run s txs)"
proof (induction txs arbitrary: s)
  case Nil
  then show ?case by simp
next
  case (Cons tx txs)
  have a: "voteCounts s i \<le> voteCounts (transact s tx) i"
    and b: "totalVotes s \<le> totalVotes (transact s tx)"
    by (simp_all add: counts_mono_transact)
  have c: "voteCounts (transact s tx) i \<le> voteCounts (run (transact s tx) txs) i"
    and d: "totalVotes (transact s tx) \<le> totalVotes (run (transact s tx) txs)"
    using Cons.IH [of "transact s tx"] by simp_all
  from order_trans [OF a c] order_trans [OF b d] show ?case by simp
qed

text \<open>
  C3. In every state reached from deployment, the counts of the candidates
  \<open>0 \<dots> candidateCount - 1\<close> (the array \<open>getAllVoteCounts\<close> returns) sum to \<open>totalVotes\<close>, and
  \<open>totalVotes\<close> is the number of \<open>castVote\<close> calls that succeeded, all as natural numbers
  without wrap-around; and whatever transactions follow, no vote count and no total
  ever goes down.
\<close>

theorem tally_conservation:
  assumes "s = run (init_state initialOwner) txs"
  shows "sum_list (map unat (getAllVoteCounts s)) = unat (totalVotes s)
       \<and> unat (totalVotes s) = accepted_votes (init_state initialOwner) txs
       \<and> (\<forall>i. voteCounts s i \<le> voteCounts (run s later) i)
       \<and> totalVotes s \<le> totalVotes (run s later)"
proof -
  have "sum_list (map unat (getAllVoteCounts (init_state initialOwner)))
          = unat (totalVotes (init_state initialOwner))"
    by (simp add: init_state_def getAllVoteCounts_def)
  then have "sum_list (map unat (getAllVoteCounts s)) = unat (totalVotes s)"
    unfolding assms by (rule tally_run [OF config_inv_init])
  moreover have "unat (totalVotes s) = accepted_votes (init_state initialOwner) txs"
    unfolding assms by (simp add: totalVotes_run init_state_def)
  ultimately show ?thesis by (simp add: counts_mono_run)
qed

lemma run_append: "run s (xs @ ys) = run (run s xs) ys"
  by (induction xs arbitrary: s) simp_all

lemma demo_trace_state:
  "run (init_state demo_owner) demo_trace =
     \<lparr> owner = 1, paused = False, entered = False,
       votingGroupId = 1, votingStartTime = 1100, votingEndTime = 4700,
       votingInitialized = True,
       voteCounts = (\<lambda>_. 0)(0 := 1), usedNullifiers = (\<lambda>_. False)(170 := True),
       totalVotes = 1, candidateCount = 3,
       authorizedRelayers = (\<lambda>_. False)(7 := True), relayerAddresses = [7],
       events = [OwnershipTransferred 0 1, VotingConfigured 1 1100 4700 3, RelayerAdded 7,
                 VoteCast 0 170 7 1101] \<rparr>"
  unfolding demo_trace_def run_append demo_setup_state
  by (simp add: transact_def castVote_unfold demo_env_def demo_relayer_def demo_vote_def
      simpleVerifyProof_def publicSignals0_def)

text \<open>
  C3 at the test scenario after one accepted vote for candidate 0.
\<close>

theorem tally_conservation_witness:
  "getAllVoteCounts (run (init_state demo_owner) demo_trace) = [1, 0, 0]
   \<and> totalVotes (run (init_state demo_owner) demo_trace) = 1
   \<and> accepted_votes (init_state demo_owner) demo_trace = 1"
proof -
  have counts: "getAllVoteCounts (run (init_state demo_owner) demo_trace) = [1, 0, 0]"
    unfolding demo_trace_state by (simp add: getAllVoteCounts_def upt_rec)
  have total: "totalVotes (run (init_state demo_owner) demo_trace) = 1"
    unfolding demo_trace_state by simp
  show ?thesis
    using tally_conservation [where s = "run (init_state demo_owner) demo_trace"
        and initialOwner = demo_owner and txs = demo_trace and later = "[]"]
    by (simp add: counts total)
qed

lemma used_transact:
  "usedNullifiers s n \<Longrightarrow> usedNullifiers (transact s tx) n"
proof (cases tx)
  case (Pair e cl)
  assume u: "usedNullifiers s n"
  show ?thesis
  proof (cases cl)
    case (CastVote cid nh a b c ps d)
    with Pair u show ?thesis
      by (auto simp: transact_def castVote_unfold split: if_splits)
  qed (use Pair u in \<open>auto simp: transact_def admin_defs split: if_splits\<close>)
qed

lemma used_run: "usedNullifiers s n \<Longrightarrow> usedNullifiers (run s txs) n"
  by (induction txs arbitrary: s) (simp_all add: used_transact)

text \<open>A transaction marks \<open>n\<close> used exactly when it is a successful vote carrying \<open>n\<close>.\<close>

lemma used_step:
  "\<not> usedNullifiers s n \<Longrightarrow>
     usedNullifiers (transact s tx) n \<longleftrightarrow> carries n (snd tx) \<and> succeeds s tx"
proof (cases tx)
  case (Pair e cl)
  assume u: "\<not> usedNullifiers s n"
  show ?thesis
  proof (cases cl)
    case (CastVote cid nh a b c ps d)
    with Pair u show ?thesis
      by (auto simp: transact_def succeeds_def castVote_unfold split: if_splits)
  qed (use Pair u in \<open>auto simp: transact_def succeeds_def admin_defs split: if_splits\<close>)
qed

lemma used_blocks:
  "usedNullifiers s n \<Longrightarrow> \<not> (carries n (snd tx) \<and> succeeds s tx)"
proof (cases tx)
  case (Pair e cl)
  assume u: "usedNullifiers s n"
  show ?thesis
  proof (cases cl)
    case (CastVote cid nh a b c ps d)
    with Pair u show ?thesis
      by (auto simp: succeeds_def castVote_unfold split: if_splits)
  qed (use Pair in simp_all)
qed

lemma accepted_with_eq:
  "accepted_with n s txs = (if usedNullifiers (run s txs) n \<and> \<not> usedNullifiers s n then 1 else 0)"
proof (induction txs arbitrary: s)
  case Nil
  then show ?case by simp
next
  case (Cons tx txs)
  show ?case
  proof (cases "usedNullifiers s n")
    case True
    then have "usedNullifiers (transact s tx) n" by (rule used_transact)
    with True used_blocks [OF True, of tx] Cons.IH [of "transact s tx"] show ?thesis by simp
  next
    case False
    show ?thesis
    proof (cases "carries n (snd tx) \<and> succeeds s tx")
      case True
      with False have u: "usedNullifiers (transact s tx) n" by (simp add: used_step)
      then have "usedNullifiers (run (transact s tx) txs) n" by (rule used_run)
      with True False u Cons.IH [of "transact s tx"] show ?thesis by simp
    next
      case no: False
      with False have "\<not> usedNullifiers (transact s tx) n" by (simp add: used_step)
      with no False Cons.IH [of "transact s tx"] show ?thesis by auto
    qed
  qed
qed

lemma votes_added_step:
  "carries n (snd tx) \<Longrightarrow>
     uint (totalVotes (transact s tx)) - uint (totalVotes s) = (if succeeds s tx then 1 else 0)"
proof -
  assume "carries n (snd tx)"
  then have "is_castVote (snd tx)" by (cases "snd tx") simp_all
  then have "unat (totalVotes (transact s tx)) = unat (totalVotes s) + (if succeeds s tx then 1 else 0)"
    by (simp add: totalVotes_transact)
  then have "int (unat (totalVotes (transact s tx))) = int (unat (totalVotes s)) + (if succeeds s tx then 1 else 0)"
    by simp
  then show ?thesis by simp
qed

lemma votes_added_with_eq:
  "votes_added_with n s txs = int (accepted_with n s txs)"
  by (induction txs arbitrary: s) (simp_all add: votes_added_step)

text \<open>
  C1 as stated fails: after the vote with nullifier 170 has been accepted, a second
  \<open>castVote\<close> with that nullifier made after the end of the window reverts with
  \<open>VotingNotActive\<close>, and one made inside the window for candidate 1 with the same proof
  (signal 0) reverts with \<open>InvalidCandidate\<close>; neither reverts with \<open>NullifierAlreadyUsed\<close>.
\<close>

theorem nullifier_single_use_counterexample:
  "succeeds (run (init_state demo_owner) demo_setup) (demo_env demo_relayer 1101, demo_vote 0 0 170)
   \<and> castVote (demo_env demo_relayer 4701) 0 170 (1, 2) ((3, 4), (5, 6)) (7, 8) (0, 170, 999, 1) 20
        (run (init_state demo_owner) demo_trace) = Inl VotingNotActive
   \<and> castVote (demo_env demo_relayer 1102) 1 170 (1, 2) ((3, 4), (5, 6)) (7, 8) (0, 170, 999, 1) 20
        (run (init_state demo_owner) demo_trace) = Inl InvalidCandidate"
proof -
  have "succeeds (run (init_state demo_owner) demo_setup) (demo_env demo_relayer 1101, demo_vote 0 0 170)"
    unfolding demo_setup_state
    by (simp add: succeeds_def castVote_unfold demo_env_def demo_relayer_def demo_vote_def
        simpleVerifyProof_def publicSignals0_def)
  then show ?thesis
    unfolding demo_trace_state
    by (simp add: castVote_unfold demo_env_def demo_relayer_def publicSignals0_def)
qed

text \<open>
  C1, amended. Along any run from deployment, at most one \<open>castVote\<close> carrying \<open>n\<close>
  succeeds, and exactly one has succeeded precisely when \<open>n\<close> is marked used; the calls
  carrying \<open>n\<close> raise \<open>totalVotes\<close> by the number of them that succeeded, so by one once
  \<open>n\<close> is used. Once \<open>n\<close> is used it stays used whatever follows, and every \<open>castVote\<close>
  carrying \<open>n\<close> fails and changes nothing; it fails with \<open>NullifierAlreadyUsed\<close> when it
  passes the checks made before the nullifier check (not paused, inside the window,
  authorized relayer, candidate in range and equal to the signal), and otherwise with
  the error of the first of those checks that fails, in the order of the code:
  \<open>EnforcedPause\<close>, \<open>VotingNotActive\<close>, \<open>UnauthorizedRelayer\<close>, \<open>InvalidCandidate\<close>.
\<close>

theorem nullifier_single_use:
  assumes "s = run (init_state initialOwner) txs"
  shows "accepted_with n (init_state initialOwner) txs \<le> 1
       \<and> (accepted_with n (init_state initialOwner) txs = 1 \<longleftrightarrow> usedNullifiers s n)
       \<and> votes_added_with n (init_state initialOwner) txs
           = int (accepted_with n (init_state initialOwner) txs)
       \<and> (usedNullifiers s n \<longrightarrow>
            usedNullifiers (run s later) n
            \<and> (\<exists>err. castVote e cid n a b c ps d s = Inl err)
            \<and> transact s (e, CastVote cid n a b c ps d) = s
            \<and> (\<not> paused s \<and> votingStartTime s \<le> block_timestamp e
                 \<and> block_timestamp e \<le> votingEndTime s
                 \<and> authorizedRelayers s (msg_sender e)
                 \<and> cid < candidateCount s \<and> cid = publicSignals0 ps
               \<longrightarrow> castVote e cid n a b c ps d s = Inl NullifierAlreadyUsed)
            \<and> castVote e cid n a b c ps d s =
                Inl (if paused s then EnforcedPause
                     else if block_timestamp e < votingStartTime s
                             \<or> votingEndTime s < block_timestamp e then VotingNotActive
                     else if \<not> authorizedRelayers s (msg_sender e) then UnauthorizedRelayer
                     else if candidateCount s \<le> cid \<or> cid \<noteq> publicSignals0 ps
                       then InvalidCandidate
                     else NullifierAlreadyUsed))"
proof -
  have fresh: "\<not> usedNullifiers (init_state initialOwner) n"
    by (simp add: init_state_def)
  have cnt: "accepted_with n (init_state initialOwner) txs = (if usedNullifiers s n then 1 else 0)"
    using fresh by (simp add: accepted_with_eq assms)
  have "config_inv s" unfolding assms by (rule config_inv_reachable)
  then have ne: "\<not> entered s" by (simp add: config_inv_def)
  have fails: "\<exists>err. castVote e cid n a b c ps d s = Inl err" if "usedNullifiers s n"
    using that by (simp add: castVote_unfold)
  have unchanged: "transact s (e, CastVote cid n a b c ps d) = s" if "usedNullifiers s n"
    using fails [OF that] by (auto simp: transact_def)
  have named: "usedNullifiers s n \<longrightarrow>
      (\<not> paused s \<and> votingStartTime s \<le> block_timestamp e
         \<and> block_timestamp e \<le> votingEndTime s
         \<and> authorizedRelayers s (msg_sender e)
         \<and> cid < candidateCount s \<and> cid = publicSignals0 ps
       \<longrightarrow> castVote e cid n a b c ps d s = Inl NullifierAlreadyUsed)"
    using ne by (auto simp: castVote_unfold)
  have exact: "usedNullifiers s n \<longrightarrow>
      castVote e cid n a b c ps d s =
        Inl (if paused s then EnforcedPause
             else if block_timestamp e < votingStartTime s
                     \<or> votingEndTime s < block_timestamp e then VotingNotActive
             else if \<not> authorizedRelayers s (msg_sender e) then UnauthorizedRelayer
             else if candidateCount s \<le> cid \<or> cid \<noteq> publicSignals0 ps
               then InvalidCandidate
             else NullifierAlreadyUsed)"
    using ne by (simp add: castVote_unfold)
  have stays: "usedNullifiers s n \<longrightarrow> usedNullifiers (run s later) n"
    by (simp add: used_run)
  have added: "votes_added_with n (init_state initialOwner) txs
           = int (accepted_with n (init_state initialOwner) txs)"
    by (rule votes_added_with_eq)
  from cnt have le: "accepted_with n (init_state initialOwner) txs \<le> 1"
    and iff: "accepted_with n (init_state initialOwner) txs = 1 \<longleftrightarrow> usedNullifiers s n"
    by simp_all
  from le iff added stays fails unchanged named exact show ?thesis by blast
qed

text \<open>
  C1, amended, at the test scenario: the accepted nullifier 170 is resubmitted inside the
  window, once by the relayer and once by an account that is not a relayer, for a
  candidate that is out of range.
\<close>

theorem nullifier_single_use_witness:
  "usedNullifiers (run (init_state demo_owner) demo_trace) 170
   \<and> accepted_with 170 (init_state demo_owner) demo_trace = 1
   \<and> votes_added_with 170 (init_state demo_owner) demo_trace = 1
   \<and> castVote (demo_env demo_relayer 1102) 0 170 (1, 2) ((3, 4), (5, 6)) (7, 8) (0, 170, 999, 1) 20
        (run (init_state demo_owner) demo_trace) = Inl NullifierAlreadyUsed
   \<and> castVote (demo_env demo_owner 1102) 5 170 (1, 2) ((3, 4), (5, 6)) (7, 8) (0, 170, 999, 1) 20
        (run (init_state demo_owner) demo_trace) = Inl UnauthorizedRelayer"
proof -
  have used: "usedNullifiers (run (init_state demo_owner) demo_trace) 170"
    unfolding demo_trace_state by simp
  have pre: "\<not> paused (run (init_state demo_owner) demo_trace)
      \<and> votingStartTime (run (init_state demo_owner) demo_trace) \<le> block_timestamp (demo_env demo_relayer 1102)
      \<and> block_timestamp (demo_env demo_relayer 1102) \<le> votingEndTime (run (init_state demo_owner) demo_trace)
      \<and> authorizedRelayers (run (init_state demo_owner) demo_trace) (msg_sender (demo_env demo_relayer 1102))
      \<and> 0 < candidateCount (run (init_state demo_owner) demo_trace)
      \<and> 0 = publicSignals0 (0, 170, 999, 1)"
    unfolding demo_trace_state by (simp add: demo_env_def demo_relayer_def publicSignals0_def)
  have other: "\<not> paused (run (init_state demo_owner) demo_trace)
      \<and> \<not> block_timestamp (demo_env demo_owner 1102) < votingStartTime (run (init_state demo_owner) demo_trace)
      \<and> \<not> votingEndTime (run (init_state demo_owner) demo_trace) < block_timestamp (demo_env demo_owner 1102)
      \<and> \<not> authorizedRelayers (run (init_state demo_owner) demo_trace) (msg_sender (demo_env demo_owner 1102))"
    unfolding demo_trace_state by (simp add: demo_env_def demo_owner_def)
  show ?thesis
    using nullifier_single_use [where s = "run (init_state demo_owner) demo_trace"
        and initialOwner = demo_owner and txs = demo_trace and n = 170 and later = "[]"
        and e = "demo_env demo_relayer 1102" and cid = 0 and a = "(1, 2)"
        and b = "((3, 4), (5, 6))" and c = "(7, 8)" and ps = "(0, 170, 999, 1)" and d = 20]
      nullifier_single_use [where s = "run (init_state demo_owner) demo_trace"
        and initialOwner = demo_owner and txs = demo_trace and n = 170 and later = "[]"
        and e = "demo_env demo_owner 1102" and cid = 5 and a = "(1, 2)"
        and b = "((3, 4), (5, 6))" and c = "(7, 8)" and ps = "(0, 170, 999, 1)" and d = 20]
      used pre other
    by simp
qed

lemma swap_pop:
  assumes "distinct xs" and "i < length xs"
  shows "set (butlast (xs[i := xs ! (length xs - 1)])) = set xs - {xs ! i}
       \<and> distinct (butlast (xs[i := xs ! (length xs - 1)]))"
proof (cases xs rule: rev_cases)
  case Nil
  with assms(2) show ?thesis by simp
next
  case (snoc ys l)
  with assms(1) have d: "distinct ys" and l: "l \<notin> set ys" by simp_all
  show ?thesis
  proof (cases "i = length ys")
    case True
    with snoc l show ?thesis using d by simp
  next
    case False
    with assms(2) snoc have i: "i < length ys" by simp
    then have upd: "butlast (xs[i := xs ! (length xs - 1)]) = ys[i := l]"
      using snoc by (simp add: list_update_append nth_append)
    have "set (ys[i := l]) = insert l (set ys - {ys ! i})"
      using d i by (rule set_update_distinct)
    moreover have "ys ! i \<noteq> l" using i l by (metis nth_mem)
    moreover have "xs ! i = ys ! i" using i snoc by (simp add: nth_append)
    moreover have "distinct (ys[i := l])"
      using d l by (simp add: distinct_list_update)
    ultimately show ?thesis using upd snoc by auto
  qed
qed

lemma removeRelayer_loop_correct:
  "distinct xs \<Longrightarrow> r \<in> set xs \<Longrightarrow> (\<forall>j<i. xs ! j \<noteq> r) \<Longrightarrow>
     set (removeRelayer_loop r i xs) = set xs - {r} \<and> distinct (removeRelayer_loop r i xs)"
proof (induction r i xs rule: removeRelayer_loop.induct)
  case (1 relayer i xs)
  show ?case
  proof (cases "i < length xs")
    case False
    with "1.prems"(3) have "\<forall>j<length xs. xs ! j \<noteq> relayer" by simp
    then have "relayer \<notin> set xs" by (auto simp: in_set_conv_nth)
    with "1.prems"(2) show ?thesis by simp
  next
    case True
    show ?thesis
    proof (cases "xs ! i = relayer")
      case hit: True
      from True hit have "removeRelayer_loop relayer i xs = butlast (xs[i := xs ! (length xs - 1)])"
        by (subst removeRelayer_loop.simps) simp
      with swap_pop [OF "1.prems"(1) True] hit show ?thesis by simp
    next
      case miss: False
      with "1.prems"(3) have "\<forall>j<Suc i. xs ! j \<noteq> relayer" by (simp add: less_Suc_eq)
      moreover from True miss
      have "removeRelayer_loop relayer i xs = removeRelayer_loop relayer (Suc i) xs"
        by (subst removeRelayer_loop.simps) simp
      ultimately show ?thesis
        using "1.IH" [OF True miss "1.prems"(1,2)] by simp
    qed
  qed
qed

lemma relayer_inv_transact:
  assumes "distinct (relayerAddresses s)"
    and "\<forall>a. a \<in> set (relayerAddresses s) \<longleftrightarrow> authorizedRelayers s a"
    and "\<not> authorizedRelayers s 0"
  shows "distinct (relayerAddresses (transact s tx))
       \<and> (\<forall>a. a \<in> set (relayerAddresses (transact s tx)) \<longleftrightarrow> authorizedRelayers (transact s tx) a)
       \<and> \<not> authorizedRelayers (transact s tx) 0"
proof (cases tx)
  case (Pair e cl)
  show ?thesis
  proof (cases cl)
    case (CastVote cid nh a b c ps d)
    with Pair assms show ?thesis
      by (auto simp: transact_def castVote_unfold split: if_splits)
  next
    case (RemoveRelayer r)
    show ?thesis
    proof (cases "removeRelayer e r s")
      case (Inl err)
      with Pair RemoveRelayer assms show ?thesis by (simp add: transact_def)
    next
      case (Inr s')
      then have auth: "authorizedRelayers s r"
        and s': "authorizedRelayers s' = (authorizedRelayers s)(r := False)"
          "relayerAddresses s' = removeRelayer_loop r 0 (relayerAddresses s)"
        by (auto simp: admin_defs split: if_splits)
      from auth assms(2) have "r \<in> set (relayerAddresses s)" by simp
      from removeRelayer_loop_correct [OF assms(1) this, of 0]
      have "set (relayerAddresses s') = set (relayerAddresses s) - {r}"
        "distinct (relayerAddresses s')"
        by (simp_all add: s')
      with assms(2,3) s'(1) Pair RemoveRelayer Inr show ?thesis
        by (auto simp: transact_def)
    qed
  qed (use Pair assms in \<open>auto simp: transact_def admin_defs split: if_splits\<close>)
qed

lemma relayer_inv_run:
  "distinct (relayerAddresses s) \<Longrightarrow>
   (\<forall>a. a \<in> set (relayerAddresses s) \<longleftrightarrow> authorizedRelayers s a) \<Longrightarrow>
   \<not> authorizedRelayers s 0 \<Longrightarrow>
     distinct (relayerAddresses (run s txs))
     \<and> (\<forall>a. a \<in> set (relayerAddresses (run s txs)) \<longleftrightarrow> authorizedRelayers (run s txs) a)
     \<and> \<not> authorizedRelayers (run s txs) 0"
proof (induction txs arbitrary: s)
  case Nil
  then show ?case by simp
next
  case (Cons tx txs)
  from relayer_inv_transact [OF Cons.prems, of tx]
  have "distinct (relayerAddresses (transact s tx))"
    "\<forall>a. a \<in> set (relayerAddresses (transact s tx)) \<longleftrightarrow> authorizedRelayers (transact s tx) a"
    "\<not> authorizedRelayers (transact s tx) 0"
    by simp_all
  from Cons.IH [OF this] show ?case by simp
qed

lemma count_list_distinct:
  "distinct xs \<Longrightarrow> count_list xs a = (if a \<in> set xs then 1 else 0)"
  by (induction xs) auto

text \<open>
  C10. In every state reached from deployment the array \<open>getRelayers\<close> returns holds an
  address exactly once when \<open>authorizedRelayers\<close> maps it to true and not at all
  otherwise; the zero address is never authorized and never in the array, and
  \<open>addRelayer\<close> rejects it; adding an authorized address or removing one that is not
  authorized fails and leaves the whole state unchanged.
\<close>

theorem relayer_registry_consistent:
  assumes "s = run (init_state initialOwner) txs"
  shows "(count_list (getRelayers s) a = 1 \<longleftrightarrow> authorizedRelayers s a)
       \<and> count_list (getRelayers s) a \<le> 1
       \<and> \<not> authorizedRelayers s 0 \<and> 0 \<notin> set (getRelayers s)
       \<and> (authorizedRelayers s r \<longrightarrow>
            (\<exists>err. addRelayer e r s = Inl err) \<and> transact s (e, AddRelayer r) = s)
       \<and> (\<not> authorizedRelayers s r \<longrightarrow>
            (\<exists>err. removeRelayer e r s = Inl err) \<and> transact s (e, RemoveRelayer r) = s)
       \<and> (\<exists>err. addRelayer e 0 s = Inl err)"
proof -
  have "distinct (relayerAddresses (init_state initialOwner))"
    "\<forall>a. a \<in> set (relayerAddresses (init_state initialOwner))
        \<longleftrightarrow> authorizedRelayers (init_state initialOwner) a"
    "\<not> authorizedRelayers (init_state initialOwner) 0"
    by (simp_all add: init_state_def)
  from relayer_inv_run [OF this, of txs]
  have d: "distinct (relayerAddresses s)"
    and m: "\<forall>a. a \<in> set (relayerAddresses s) \<longleftrightarrow> authorizedRelayers s a"
    and z: "\<not> authorizedRelayers s 0"
    by (simp_all add: assms)
  have cnt: "count_list (getRelayers s) a = (if authorizedRelayers s a then 1 else 0)"
    using d m by (simp add: getRelayers_def count_list_distinct)
  have zmem: "0 \<notin> set (getRelayers s)"
    using m z by (simp add: getRelayers_def)
  have add: "(\<exists>err. addRelayer e r s = Inl err) \<and> transact s (e, AddRelayer r) = s"
    if "authorizedRelayers s r"
    using that by (auto simp: transact_def admin_defs)
  have rem: "(\<exists>err. removeRelayer e r s = Inl err) \<and> transact s (e, RemoveRelayer r) = s"
    if "\<not> authorizedRelayers s r"
    using that by (auto simp: transact_def admin_defs)
  have zero: "\<exists>err. addRelayer e 0 s = Inl err"
    by (auto simp: admin_defs)
  from cnt z zmem add rem zero show ?thesis by simp
qed

lemma demo_relayers_state:
  "getRelayers (run (init_state demo_owner) demo_relayers) = [9, 8]
   \<and> authorizedRelayers (run (init_state demo_owner) demo_relayers) 7 = False
   \<and> authorizedRelayers (run (init_state demo_owner) demo_relayers) 8 = True"
  by (simp add: demo_relayers_def demo_env_def demo_owner_def init_state_def transact_def
      admin_defs getRelayers_def removeRelayer_loop.simps)

text \<open>
  C10 after adding 7, 8, 9 and removing 7: the array is \<open>[9, 8]\<close> (the last element was
  moved into the freed slot); adding 8 again and removing 7 again change nothing.
\<close>

theorem relayer_registry_consistent_witness:
  "getRelayers (run (init_state demo_owner) demo_relayers) = [9, 8]
   \<and> count_list (getRelayers (run (init_state demo_owner) demo_relayers)) 8 = 1
   \<and> transact (run (init_state demo_owner) demo_relayers) (demo_env demo_owner 5, AddRelayer 8)
       = run (init_state demo_owner) demo_relayers
   \<and> transact (run (init_state demo_owner) demo_relayers) (demo_env demo_owner 5, RemoveRelayer 7)
       = run (init_state demo_owner) demo_relayers"
  using relayer_registry_consistent [where s = "run (init_state demo_owner) demo_relayers"
      and initialOwner = demo_owner and txs = demo_relayers and a = 8 and r = 8
      and e = "demo_env demo_owner 5"]
    relayer_registry_consistent [where s = "run (init_state demo_owner) demo_relayers"
      and initialOwner = demo_owner and txs = demo_relayers and a = 8 and r = 7
      and e = "demo_env demo_owner 5"]
    demo_relayers_state
  by simp










lemma demo_draw_07_product: "bit_length 63050394783186940 = 56"
  by (simp add: bit_length.simps)

lemma demo_draw_07_index: "floor_random_times demo_draw_07 10 = 7"
  by (simp add: floor_random_times_def double_times_length_def round_half_even_def
      demo_draw_07_def demo_draw_07_product Let_def)

text \<open>
  The rounding matters: at the draw 0.7 and ten wallets the exact product is just below
  7, the double product is 7, and index 7 is selected.
\<close>

lemma select_relayer_rounds_like_double:
  "is_random_draw demo_draw_07
   \<and> selectRandomRelayer [0 :: nat, 1, 2, 3, 4, 5, 6, 7, 8, 9] demo_draw_07 = Inr (Some 7)"
proof -
  have len: "length [0 :: nat, 1, 2, 3, 4, 5, 6, 7, 8, 9] = 10" by simp
  have "selectRandomRelayer [0 :: nat, 1, 2, 3, 4, 5, 6, 7, 8, 9] demo_draw_07 = Inr (Some 7)"
    unfolding selectRandomRelayer_def len demo_draw_07_index
    by (simp add: js_index_def)
  then show ?thesis by (simp add: is_random_draw_def demo_draw_07_def)
qed

end
